theory Spec2Isabelle
  imports Main "HOL-Library.Word"
begin

unbundle bit_operations_syntax

section \<open>Data model\<close>

text \<open>
  The scanner of \<^verbatim>\<open>be/src/exec/delimited-text-parser.inline.h\<close>.
  Bytes are \<open>8 word\<close>, the match masks (\<^verbatim>\<open>uint16_t\<close>) are \<open>16 word\<close>.
  Pointers into the caller's buffer are addresses, modelled as \<open>int\<close>; the signed
  counters (\<^verbatim>\<open>int\<close>, \<^verbatim>\<open>int64_t\<close>) are \<open>int\<close> as well: overflow of signed
  arithmetic is undefined in C++ and is not modelled, the narrowing of a pointer
  difference to \<^verbatim>\<open>int\<close> is (\<open>to_int32\<close> below).
\<close>

type_synonym byte = "8 word"
type_synonym mask16 = "16 word"

record FieldLocation =
  start :: int
  len :: int

text \<open>
  What is fixed for one parser instance.  \<open>ReturnCurrentColumn\<close> is the projection
  decision of the surrounding scan node, asked for the current \<open>column_idx_\<close>; it and the
  two range tables \<open>low_mask_\<close> and \<open>high_mask_\<close> are filled in outside this file, so they
  are parameters here.
\<close>

record parser_config =
  field_delim :: byte
  collection_item_delim :: byte
  tuple_delim :: byte
  escape_char :: byte
  num_partition_keys :: int
  ReturnCurrentColumn :: "int \<Rightarrow> bool"
  low_mask :: "nat \<Rightarrow> mask16"
  high_mask :: "nat \<Rightarrow> mask16"

text \<open>
  The mutable members of the parser (the trailing underscore of the member names is
  dropped) together with the in/out arguments of \<^verbatim>\<open>ParseSse\<close>.
\<close>

record scan_state =
  column_idx :: int
  current_column_has_escape :: bool
  last_char_is_escape :: bool
  remaining_len :: int
  byte_buffer_ptr :: int
  row_end_locations :: "int list"
  field_locations :: "FieldLocation list"
  num_tuples :: int
  num_fields :: int
  next_column_start :: int

text \<open>
  The fatal preconditions.  The two output sequences are lists of the capacity the caller
  provides; a write outside them (undefined behaviour when the assertions are compiled
  out) and a failed assertion are errors.
\<close>

datatype error =
    FieldCapacity   \<comment> \<open>\<^verbatim>\<open>DCHECK_LT(*num_fields, field_locations->size())\<close> fails\<close>
  | RowEndCapacity  \<comment> \<open>write past the end of \<^verbatim>\<open>row_end_locations\<close>\<close>
  | EscapeCharUnset \<comment> \<open>\<^verbatim>\<open>DCHECK(escape_char_ != 0)\<close> fails\<close>

section \<open>SSE helpers\<close>

text \<open>
  Modelled from the spec: \<^verbatim>\<open>SSEUtil::CHARS_PER_128_BIT_REGISTER\<close> is declared outside
  this file; a window is 16 bytes.
\<close>

definition CHARS_PER_128_BIT_REGISTER :: nat where
  "CHARS_PER_128_BIT_REGISTER = 16"

text \<open>
  Modelled from the spec: \<^verbatim>\<open>SSEUtil::SSE_BITMASK\<close> is declared outside this file; entry
  \<open>i\<close> is the mask of window position \<open>i\<close>, with only bit \<open>i\<close> set (line 127 uses it
  to ``clear current bit'').
\<close>

definition SSE_BITMASK :: "nat \<Rightarrow> mask16" where
  "SSE_BITMASK i = push_bit i 1"

section \<open>ProcessEscapeMask\<close>

function ProcessEscapeMask_loop :: "nat \<Rightarrow> mask16 \<Rightarrow> bool \<Rightarrow> mask16" where
  "ProcessEscapeMask_loop i escape_mask escape_next =
     (if i < CHARS_PER_128_BIT_REGISTER then
        (let escape_mask' = (if escape_next then escape_mask AND NOT (SSE_BITMASK i)
                             else escape_mask);
             escape_next' = (escape_mask' AND SSE_BITMASK i \<noteq> 0)
         in ProcessEscapeMask_loop (Suc i) escape_mask' escape_next')
      else escape_mask)"
  by pat_completeness auto
termination
  by (relation "measure (\<lambda>(i, m, b). CHARS_PER_128_BIT_REGISTER - i)") auto

declare ProcessEscapeMask_loop.simps [simp del]

text \<open>
  \<^verbatim>\<open>ProcessEscapeMask(escape_mask, &last_char_is_escape, &delim_mask)\<close> returns the new
  values of the two out-parameters, \<open>*last_char_is_escape\<close> (read as \<open>last_char_in\<close>) and
  \<open>*delim_mask\<close>.
\<close>

definition ProcessEscapeMask :: "mask16 \<Rightarrow> bool \<Rightarrow> mask16 \<Rightarrow> bool \<times> mask16" where
  "ProcessEscapeMask escape_mask last_char_in delim_mask =
     (let first_char_is_escape = last_char_in;
          escape_mask1 = ProcessEscapeMask_loop 0 escape_mask first_char_is_escape;
          last_char_out =
            (escape_mask1 AND SSE_BITMASK (CHARS_PER_128_BIT_REGISTER - 1) \<noteq> 0);
          escape_mask2 = push_bit 1 escape_mask1 OR (if first_char_is_escape then 1 else 0)
      in (last_char_out, delim_mask AND NOT escape_mask2))"

section \<open>AddColumn\<close>

text \<open>
  \<^verbatim>\<open>AddColumn<process_escapes>(len, next_column_start, num_fields, field_locations)\<close>;
  the argument \<^verbatim>\<open>len\<close> is \<open>col_len\<close> here.
\<close>

definition AddColumn ::
  "bool \<Rightarrow> parser_config \<Rightarrow> int \<Rightarrow> scan_state \<Rightarrow> error + scan_state" where
  "AddColumn process_escapes cfg col_len s =
     (let finish = (\<lambda>s1 :: scan_state.
            (let s2 = (if process_escapes then s1\<lparr>current_column_has_escape := False\<rparr>
                       else s1)
             in s2\<lparr>next_column_start := next_column_start s2 + (col_len + 1),
                   column_idx := column_idx s2 + 1\<rparr>))
      in if ReturnCurrentColumn cfg (column_idx s) then
           (if 0 \<le> num_fields s \<and> num_fields s < int (length (field_locations s)) then
              Inr (finish (s\<lparr>field_locations := (field_locations s)[nat (num_fields s) :=
                       \<lparr>start = next_column_start s,
                        len = (if process_escapes \<and> current_column_has_escape s
                               then - col_len else col_len)\<rparr>],
                     num_fields := num_fields s + 1\<rparr>))
            else Inl FieldCapacity)
         else Inr (finish s))"

section \<open>ParseSse\<close>

text \<open>
  Modelled from the spec: the vectorised search
  \<^verbatim>\<open>_mm_cmpistrm(needle, xmm_buffer, SSEUtil::STRCHR_MODE)\<close> followed by
  \<^verbatim>\<open>_mm_extract_epi16\<close>.  The search registers and the mode constant are set up outside
  this file; by the spec, bit \<open>i\<close> of the result is set iff byte \<open>i\<close> of the 16-byte window
  at address \<open>p\<close> is one of the searched characters (what the instruction does with a
  zero byte in the window is not modelled).  \<open>mem\<close> is the caller's memory.
\<close>

definition strchr_mask :: "(byte \<Rightarrow> bool) \<Rightarrow> (int \<Rightarrow> byte) \<Rightarrow> int \<Rightarrow> mask16" where
  "strchr_mask is_needle mem p =
     horner_sum of_bool 2 (map (\<lambda>i. is_needle (mem (p + int i))) [0..<CHARS_PER_128_BIT_REGISTER])"

definition is_delim :: "parser_config \<Rightarrow> byte \<Rightarrow> bool" where
  "is_delim cfg b \<longleftrightarrow>
     b = field_delim cfg \<or> b = collection_item_delim cfg \<or> b = tuple_delim cfg"

text \<open>libc's \<^verbatim>\<open>ffs\<close>: the 1-based index of the lowest set bit, 0 for 0.\<close>

definition ffs :: "mask16 \<Rightarrow> nat" where
  "ffs w = (case find (bit w) [0..<16] of None \<Rightarrow> 0 | Some i \<Rightarrow> Suc i)"

text \<open>
  Lines 129--134: was there an escape character between the previous processed position
  and \<open>n\<close>.
\<close>

definition mark_escape :: "parser_config \<Rightarrow> mask16 \<Rightarrow> nat \<Rightarrow> nat \<Rightarrow> scan_state \<Rightarrow> scan_state" where
  "mark_escape cfg escape_mask last_col_idx n s =
     (let escaped = (escape_mask AND low_mask cfg last_col_idx AND high_mask cfg n \<noteq> 0)
      in s\<lparr>current_column_has_escape := current_column_has_escape s \<or> escaped\<rparr>)"

text \<open>
  The conversion of a 64-bit value to \<^verbatim>\<open>int\<close>: line 138 passes the pointer difference
  \<^verbatim>\<open>delim_ptr - *next_column_start\<close> (a \<^verbatim>\<open>ptrdiff_t\<close>) for the parameter
  \<^verbatim>\<open>int len\<close> of line 35, which keeps its low 32 bits, read as two's complement.
\<close>

definition to_int32 :: "int \<Rightarrow> int" where
  "to_int32 x = (x + 2 ^ 31) mod 2 ^ 32 - 2 ^ 31"

text \<open>
  The body of the inner \<^verbatim>\<open>while (delim_mask != 0)\<close> loop for the set bit \<open>n\<close> (lines
  129--151).  The result is the new \<open>last_col_idx\<close>, the new state, and whether the function
  returned (the early exit at \<open>max_tuples\<close>).
\<close>

definition process_delim ::
  "bool \<Rightarrow> parser_config \<Rightarrow> (int \<Rightarrow> byte) \<Rightarrow> int \<Rightarrow> mask16 \<Rightarrow> nat \<Rightarrow> nat \<Rightarrow> scan_state
     \<Rightarrow> error + (bool \<times> nat \<times> scan_state)" where
  "process_delim process_escapes cfg mem max_tuples escape_mask n last_col_idx s =
     (let s1 = (if process_escapes then mark_escape cfg escape_mask last_col_idx n s else s);
          last_col_idx' = (if process_escapes then n else last_col_idx);
          delim_ptr = byte_buffer_ptr s1 + int n
      in case AddColumn process_escapes cfg (to_int32 (delim_ptr - next_column_start s1)) s1 of
           Inl e \<Rightarrow> Inl e
         | Inr s2 \<Rightarrow>
             if mem (byte_buffer_ptr s2 + int n) = tuple_delim cfg then
               (if 0 \<le> num_tuples s2 \<and> num_tuples s2 < int (length (row_end_locations s2)) then
                  (let s3 = s2\<lparr>column_idx := num_partition_keys cfg,
                               row_end_locations :=
                                 (row_end_locations s2)[nat (num_tuples s2) := delim_ptr],
                               num_tuples := num_tuples s2 + 1\<rparr>
                   in if num_tuples s3 = max_tuples then
                        Inr (True, last_col_idx',
                             s3\<lparr>byte_buffer_ptr := byte_buffer_ptr s3 + (int n + 1),
                                last_char_is_escape :=
                                  (if process_escapes then False else last_char_is_escape s3),
                                remaining_len := remaining_len s3 + (int n + 1)\<rparr>)
                      else Inr (False, last_col_idx', s3))
                else Inl RowEndCapacity)
             else Inr (False, last_col_idx', s2))"

lemma ffs_bit: "w \<noteq> 0 \<Longrightarrow> bit w (ffs w - 1) \<and> ffs w - 1 < 16"
proof -
  assume "w \<noteq> 0"
  then obtain i where "bit w i"
    by (auto simp: bit_eq_iff)
  then have i: "bit w i" "i < 16"
    using bit_imp_le_length [of w i] by simp_all
  then have "find (bit w) [0..<16] \<noteq> None"
    by (auto simp: find_None_iff)
  then obtain j where j: "find (bit w) [0..<16] = Some j" by blast
  then have "bit w j \<and> j < 16"
    by (auto simp: find_Some_iff)
  with j show ?thesis by (simp add: ffs_def)
qed

lemma clear_bit_less:
  fixes w :: mask16
  assumes "bit w n"
  shows "unat (w AND NOT (SSE_BITMASK n)) < unat w"
proof -
  have le: "w AND NOT (SSE_BITMASK n) \<le> w"
    by (simp add: word_and_le2)
  have ne: "w AND NOT (SSE_BITMASK n) \<noteq> w"
  proof
    assume "w AND NOT (SSE_BITMASK n) = w"
    then have "bit (w AND NOT (SSE_BITMASK n)) n" using assms by simp
    then show False
      by (simp add: SSE_BITMASK_def bit_simps)
  qed
  from le ne have "w AND NOT (SSE_BITMASK n) < w" by simp
  then show ?thesis by (simp add: word_less_nat_alt)
qed

lemma ffs_clear_less:
  "w \<noteq> 0 \<Longrightarrow> unat (w AND NOT (SSE_BITMASK (ffs w - Suc 0))) < unat w"
  using clear_bit_less [of w "ffs w - 1"] ffs_bit [of w] by simp

text \<open>The inner loop: walk the set bits of \<open>delim_mask\<close> from lsb to msb.\<close>

function walk_delim_mask ::
  "bool \<Rightarrow> parser_config \<Rightarrow> (int \<Rightarrow> byte) \<Rightarrow> int \<Rightarrow> mask16 \<Rightarrow> mask16 \<Rightarrow> nat \<Rightarrow> scan_state
     \<Rightarrow> error + (bool \<times> nat \<times> scan_state)" where
  "walk_delim_mask process_escapes cfg mem max_tuples escape_mask delim_mask last_col_idx s =
     (if delim_mask \<noteq> 0 then
        (let n = ffs delim_mask - 1;
             delim_mask' = delim_mask AND NOT (SSE_BITMASK n)
         in case process_delim process_escapes cfg mem max_tuples escape_mask n last_col_idx s of
              Inl e \<Rightarrow> Inl e
            | Inr (returned, last_col_idx', s') \<Rightarrow>
                if returned then Inr (True, last_col_idx', s')
                else walk_delim_mask process_escapes cfg mem max_tuples escape_mask
                       delim_mask' last_col_idx' s')
      else Inr (False, last_col_idx, s))"
  by pat_completeness auto
termination
  by (relation "measure (\<lambda>(pe, cfg, mem, k, e, d, l, s). unat d)")
     (auto simp: ffs_clear_less)

declare walk_delim_mask.simps [simp del]

lemma walk_delim_mask_zero [simp]:
  "walk_delim_mask pe cfg mem k e 0 l s = Inr (False, l, s)"
  by (subst walk_delim_mask.simps) simp

lemma walk_delim_mask_step:
  "d \<noteq> 0 \<Longrightarrow>
   walk_delim_mask pe cfg mem k e d l s =
     (case process_delim pe cfg mem k e (ffs d - 1) l s of
        Inl err \<Rightarrow> Inl err
      | Inr (returned, l1, s1) \<Rightarrow>
          if returned then Inr (True, l1, s1)
          else walk_delim_mask pe cfg mem k e (d AND NOT (SSE_BITMASK (ffs d - 1))) l1 s1)"
  by (subst walk_delim_mask.simps) (auto simp: Let_def split: sum.splits prod.splits)

text \<open>
  Lines 154--158: was there an escape character after the last processed position, up to
  the end of the window.
\<close>

definition mark_unprocessed_escape ::
  "parser_config \<Rightarrow> mask16 \<Rightarrow> nat \<Rightarrow> scan_state \<Rightarrow> scan_state" where
  "mark_unprocessed_escape cfg escape_mask last_col_idx s =
     (let unprocessed_escape =
            (escape_mask AND low_mask cfg last_col_idx AND high_mask cfg 15 \<noteq> 0)
      in s\<lparr>current_column_has_escape := current_column_has_escape s \<or> unprocessed_escape\<rparr>)"

text \<open>
  The body of the outer loop for the window at \<open>byte_buffer_ptr\<close> (lines 95--161).  The
  Boolean of the result says whether the function returned from inside the window.
\<close>

definition parse_window ::
  "bool \<Rightarrow> parser_config \<Rightarrow> (int \<Rightarrow> byte) \<Rightarrow> int \<Rightarrow> scan_state \<Rightarrow> error + (bool \<times> scan_state)" where
  "parse_window process_escapes cfg mem max_tuples s =
     (if process_escapes \<and> escape_char cfg = 0 then Inl EscapeCharUnset
      else
        (let delim_mask0 = strchr_mask (is_delim cfg) mem (byte_buffer_ptr s);
             escape_mask = (if process_escapes
                            then strchr_mask (\<lambda>b. b = escape_char cfg) mem (byte_buffer_ptr s)
                            else 0);
             pem = ProcessEscapeMask escape_mask (last_char_is_escape s) delim_mask0;
             s1 = (if process_escapes then s\<lparr>last_char_is_escape := fst pem\<rparr> else s);
             delim_mask = (if process_escapes then snd pem else delim_mask0)
         in case walk_delim_mask process_escapes cfg mem max_tuples escape_mask delim_mask 0 s1 of
              Inl e \<Rightarrow> Inl e
            | Inr (returned, last_col_idx, s2) \<Rightarrow>
                if returned then Inr (True, s2)
                else
                  (let s3 = (if process_escapes
                             then mark_unprocessed_escape cfg escape_mask last_col_idx s2
                             else s2)
                   in Inr (False,
                        s3\<lparr>remaining_len := remaining_len s3 - int CHARS_PER_128_BIT_REGISTER,
                           byte_buffer_ptr :=
                             byte_buffer_ptr s3 + int CHARS_PER_128_BIT_REGISTER\<rparr>))))"

lemma AddColumn_frame:
  assumes "AddColumn pe cfg n s = Inr s'"
  shows "remaining_len s' = remaining_len s" "byte_buffer_ptr s' = byte_buffer_ptr s"
    "last_char_is_escape s' = last_char_is_escape s" "num_tuples s' = num_tuples s"
    "row_end_locations s' = row_end_locations s"
  using assms by (auto simp: AddColumn_def Let_def split: if_splits)

lemma process_delim_continue_frame:
  assumes "process_delim pe cfg mem k e n l s = Inr (False, l', s')"
  shows "remaining_len s' = remaining_len s" "byte_buffer_ptr s' = byte_buffer_ptr s"
    "last_char_is_escape s' = last_char_is_escape s"
  using assms
  by (auto simp: process_delim_def mark_escape_def Let_def
      split: sum.splits if_splits dest: AddColumn_frame)

lemma walk_delim_mask_continue_frame:
  "walk_delim_mask pe cfg mem k e d l s = Inr (False, l', s') \<Longrightarrow>
     remaining_len s' = remaining_len s \<and> byte_buffer_ptr s' = byte_buffer_ptr s
     \<and> last_char_is_escape s' = last_char_is_escape s"
proof (induction pe cfg mem k e d l s rule: walk_delim_mask.induct)
  case (1 pe cfg mem k e d l s)
  show ?case
  proof (cases "d = 0")
    case True
    with "1.prems" show ?thesis by simp
  next
    case False
    let ?n = "ffs d - 1"
    from "1.prems" obtain l1 s1 where
      step: "process_delim pe cfg mem k e ?n l s = Inr (False, l1, s1)" and
      rest: "walk_delim_mask pe cfg mem k e (d AND NOT (SSE_BITMASK ?n)) l1 s1 = Inr (False, l', s')"
      unfolding walk_delim_mask_step [OF False]
      by (auto split: sum.splits if_splits)
    from "1.IH" [OF False refl refl step refl refl] rest
    have "remaining_len s' = remaining_len s1 \<and> byte_buffer_ptr s' = byte_buffer_ptr s1
      \<and> last_char_is_escape s' = last_char_is_escape s1" by simp
    with process_delim_continue_frame [OF step] show ?thesis by simp
  qed
qed

lemma parse_window_continue_len:
  assumes "parse_window pe cfg mem k s = Inr (False, s')"
  shows "remaining_len s' = remaining_len s - 16" "byte_buffer_ptr s' = byte_buffer_ptr s + 16"
  using assms
  by (auto simp: parse_window_def mark_unprocessed_escape_def Let_def
      CHARS_PER_128_BIT_REGISTER_def
      split: sum.splits if_splits prod.splits dest!: walk_delim_mask_continue_frame)

text \<open>
  \<^verbatim>\<open>ParseSse<process_escapes>(max_tuples, ...)\<close>: windows are taken while at least 16
  bytes remain.  (The assertion that the CPU supports SSE4.2 is about the machine and is
  left out.)
\<close>

function ParseSse ::
  "bool \<Rightarrow> parser_config \<Rightarrow> (int \<Rightarrow> byte) \<Rightarrow> int \<Rightarrow> scan_state \<Rightarrow> error + scan_state" where
  "ParseSse process_escapes cfg mem max_tuples s =
     (if remaining_len s \<ge> int CHARS_PER_128_BIT_REGISTER then
        (case parse_window process_escapes cfg mem max_tuples s of
           Inl e \<Rightarrow> Inl e
         | Inr (returned, s') \<Rightarrow>
             if returned then Inr s'
             else ParseSse process_escapes cfg mem max_tuples s')
      else Inr s)"
  by pat_completeness auto
termination
  by (relation "measure (\<lambda>(pe, cfg, mem, k, s). nat (remaining_len s))")
     (auto simp: CHARS_PER_128_BIT_REGISTER_def dest!: parse_window_continue_len(1))

declare ParseSse.simps [simp del]

section \<open>Reference notions for the properties\<close>

text \<open>
  The parity rule in the spec's words: scanning positions 0..15 in increasing order, a
  position is an active escape iff it matches the escape character and the position
  before it is not itself an active escape; the incoming carry stands for the position
  before position 0.
\<close>

fun escape_active :: "mask16 \<Rightarrow> bool \<Rightarrow> nat \<Rightarrow> bool" where
  "escape_active m c 0 = (bit m 0 \<and> \<not> c)"
| "escape_active m c (Suc i) = (bit m (Suc i) \<and> \<not> escape_active m c i)"

definition escaped_by_prev :: "mask16 \<Rightarrow> bool \<Rightarrow> nat \<Rightarrow> bool" where
  "escaped_by_prev m c i = (case i of 0 \<Rightarrow> c | Suc j \<Rightarrow> escape_active m c j)"

text \<open>The escape mask after parity correction: the active escapes of the window.\<close>

definition corrected_escape_mask :: "mask16 \<Rightarrow> bool \<Rightarrow> mask16" where
  "corrected_escape_mask m c = horner_sum of_bool 2 (map (escape_active m c) [0..<16])"

text \<open>
  The calls of \<open>ProcessEscapeMask\<close> that the scan makes on consecutive windows (line
  115), each window given by its escape-match mask and its delimiter-match mask, with
  \<open>last_char_is_escape\<close> threaded from one call to the next: the carry after the last
  window and the corrected delimiter masks.
\<close>

fun correct_windows :: "bool \<Rightarrow> (mask16 \<times> mask16) list \<Rightarrow> bool \<times> mask16 list" where
  "correct_windows c [] = (c, [])"
| "correct_windows c (w # ws) =
     (let r = ProcessEscapeMask (fst w) c (snd w);
          rest = correct_windows (fst r) ws
      in (fst rest, snd r # snd rest))"

text \<open>
  Byte \<open>p\<close> of the stream is byte \<open>p mod 16\<close> of window \<open>p div 16\<close>: whether it matches
  the escape character, whether it matches a delimiter, and whether it is still a delimiter
  after the correction.
\<close>

definition escape_at :: "(mask16 \<times> mask16) list \<Rightarrow> nat \<Rightarrow> bool" where
  "escape_at ws p \<longleftrightarrow> bit (fst (ws ! (p div 16))) (p mod 16)"

definition delim_at :: "(mask16 \<times> mask16) list \<Rightarrow> nat \<Rightarrow> bool" where
  "delim_at ws p \<longleftrightarrow> bit (snd (ws ! (p div 16))) (p mod 16)"

definition corrected_delim_at :: "bool \<Rightarrow> (mask16 \<times> mask16) list \<Rightarrow> nat \<Rightarrow> bool" where
  "corrected_delim_at c ws p \<longleftrightarrow> bit (snd (correct_windows c ws) ! (p div 16)) (p mod 16)"

text \<open>
  The carry that window \<open>w\<close> is entered with, and whether stream position \<open>p\<close> is
  escaped by the position before it.
\<close>

definition carry_in :: "bool \<Rightarrow> (mask16 \<times> mask16) list \<Rightarrow> nat \<Rightarrow> bool" where
  "carry_in c ws w = fst (correct_windows c (take w ws))"

definition esc_prev :: "bool \<Rightarrow> (mask16 \<times> mask16) list \<Rightarrow> nat \<Rightarrow> bool" where
  "esc_prev c ws p =
     escaped_by_prev (fst (ws ! (p div 16))) (carry_in c ws (p div 16)) (p mod 16)"


text \<open>
  From \<open>s\<close> to \<open>s'\<close> the field output grew by slots that hold non-negative lengths,
  and the slots below the old field counter are untouched.
\<close>

definition fields_nonneg :: "scan_state \<Rightarrow> scan_state \<Rightarrow> bool" where
  "fields_nonneg s s' \<longleftrightarrow>
     length (field_locations s') = length (field_locations s)
     \<and> num_fields s \<le> num_fields s'
     \<and> (\<forall>i. 0 \<le> i \<and> i < num_fields s \<longrightarrow>
            field_locations s' ! nat i = field_locations s ! nat i)
     \<and> (\<forall>i. num_fields s \<le> i \<and> i < num_fields s' \<longrightarrow>
            0 \<le> i \<and> 0 \<le> len (field_locations s' ! nat i))"

text \<open>A run of \<open>AddColumn\<close> calls, one per column length, stopping at the first failure.\<close>

fun AddColumns :: "bool \<Rightarrow> parser_config \<Rightarrow> int list \<Rightarrow> scan_state \<Rightarrow> error + scan_state" where
  "AddColumns pe cfg [] s = Inr s"
| "AddColumns pe cfg (n # ns) s =
     (case AddColumn pe cfg n s of Inl e \<Rightarrow> Inl e | Inr s' \<Rightarrow> AddColumns pe cfg ns s')"

text \<open>
  The configuration whose projection refuses every column below the partition-key count
  and is otherwise that of \<open>cfg\<close>.
\<close>

definition skip_partition_keys :: "parser_config \<Rightarrow> parser_config" where
  "skip_partition_keys cfg =
     cfg\<lparr>ReturnCurrentColumn := (\<lambda>i. num_partition_keys cfg \<le> i \<and> ReturnCurrentColumn cfg i)\<rparr>"


subsection \<open>Concrete inputs\<close>

text \<open>
  Range tables that mask the closed range \<open>[a, b]\<close> when intersected, as the comment on
  line 130 describes it: \<open>range_low a\<close> has the bits at or above \<open>a\<close>, \<open>range_high b\<close> the
  bits at or below \<open>b\<close>.
\<close>

definition range_low :: "nat \<Rightarrow> mask16" where
  "range_low a = push_bit a (- 1)"

definition range_high :: "nat \<Rightarrow> mask16" where
  "range_high b = mask (Suc b)"

text \<open>
  A comma-separated configuration: field delimiter \<open>,\<close> (44), tuple delimiter newline
  (10), escape character backslash (92), every column materialised.
\<close>

definition csv_config :: "int \<Rightarrow> parser_config" where
  "csv_config npk =
     \<lparr>field_delim = 44, collection_item_delim = 2, tuple_delim = 10, escape_char = 92,
      num_partition_keys = npk, ReturnCurrentColumn = (\<lambda>i. True),
      low_mask = range_low, high_mask = range_high\<rparr>"

text \<open>Memory holding the bytes \<open>xs\<close> from address 0 on, and zero elsewhere.\<close>

definition mem_of :: "byte list \<Rightarrow> int \<Rightarrow> byte" where
  "mem_of xs a = (if 0 \<le> a \<and> a < int (length xs) then xs ! nat a else 0)"

text \<open>
  The state before the first call over a buffer of \<open>n\<close> bytes at address 0, with room for
  4 tuple ends and 8 fields, in a table with \<open>npk\<close> partition keys.
\<close>

definition initial_state :: "int \<Rightarrow> int \<Rightarrow> scan_state" where
  "initial_state npk n =
     \<lparr>column_idx = npk, current_column_has_escape = False, last_char_is_escape = False,
      remaining_len = n, byte_buffer_ptr = 0, row_end_locations = replicate 4 0,
      field_locations = replicate 8 \<lparr>start = 0, len = 0\<rparr>, num_tuples = 0, num_fields = 0,
      next_column_start = 0\<rparr>"

text \<open>
  A 32-byte stream of \<open>x\<close> with a field delimiter at offset 3 and a tuple delimiter at
  offset 20.
\<close>

definition split_stream :: "byte list" where
  "split_stream = replicate 3 120 @ [44] @ replicate 16 120 @ [10] @ replicate 11 120"

section \<open>Properties\<close>

subsection \<open>Bit masks\<close>

lemma bit_SSE_BITMASK: "bit (SSE_BITMASK i) j \<longleftrightarrow> j = i \<and> i < 16"
  by (auto simp: SSE_BITMASK_def bit_simps)

lemma and_SSE_BITMASK_nonzero: "(m AND SSE_BITMASK i \<noteq> 0) \<longleftrightarrow> bit m i"
proof
  assume "m AND SSE_BITMASK i \<noteq> 0"
  then obtain j where "bit (m AND SSE_BITMASK i) j" by (auto simp: bit_eq_iff)
  then show "bit m i" by (auto simp: bit_simps bit_SSE_BITMASK)
next
  assume b: "bit m i"
  then have "i < 16" using bit_imp_le_length [of m i] by simp
  with b have "bit (m AND SSE_BITMASK i) i" by (simp add: bit_simps bit_SSE_BITMASK)
  then show "m AND SSE_BITMASK i \<noteq> 0" by auto
qed

lemma bit_clear_SSE_BITMASK:
  "bit (m AND NOT (SSE_BITMASK i)) j \<longleftrightarrow> bit m j \<and> j \<noteq> i"
  using bit_imp_le_length [of m j] by (auto simp: bit_simps bit_SSE_BITMASK)

subsection \<open>The window body, unfolded\<close>

lemma parse_window_unfold:
  "parse_window pe cfg mem k s =
     (if pe \<and> escape_char cfg = 0 then Inl EscapeCharUnset
      else case walk_delim_mask pe cfg mem k
             (if pe then strchr_mask (\<lambda>b. b = escape_char cfg) mem (byte_buffer_ptr s) else 0)
             (if pe then snd (ProcessEscapeMask
                     (strchr_mask (\<lambda>b. b = escape_char cfg) mem (byte_buffer_ptr s))
                     (last_char_is_escape s)
                     (strchr_mask (is_delim cfg) mem (byte_buffer_ptr s)))
              else strchr_mask (is_delim cfg) mem (byte_buffer_ptr s))
             0
             (if pe then s\<lparr>last_char_is_escape := fst (ProcessEscapeMask
                     (strchr_mask (\<lambda>b. b = escape_char cfg) mem (byte_buffer_ptr s))
                     (last_char_is_escape s)
                     (strchr_mask (is_delim cfg) mem (byte_buffer_ptr s)))\<rparr>
              else s) of
        Inl err \<Rightarrow> Inl err
      | Inr (returned, l, s2) \<Rightarrow>
          if returned then Inr (True, s2)
          else Inr (False,
             (if pe then mark_unprocessed_escape cfg
                    (strchr_mask (\<lambda>b. b = escape_char cfg) mem (byte_buffer_ptr s)) l s2
              else s2)
             \<lparr>remaining_len := remaining_len s2 - 16, byte_buffer_ptr := byte_buffer_ptr s2 + 16\<rparr>))"
  by (cases pe)
     (auto simp: parse_window_def Let_def CHARS_PER_128_BIT_REGISTER_def
       mark_unprocessed_escape_def split: sum.splits)

subsection \<open>ProcessEscapeMask\<close>

lemma escape_active_rec: "escape_active m c i = (bit m i \<and> \<not> escaped_by_prev m c i)"
  by (cases i) (simp_all add: escaped_by_prev_def)

lemma ProcessEscapeMask_loop_bit:
  assumes "\<forall>j<i. bit m' j = escape_active m c j"
    and "\<forall>j\<ge>i. bit m' j = bit m j"
    and "en = escaped_by_prev m c i"
    and "j < 16"
  shows "bit (ProcessEscapeMask_loop i m' en) j = escape_active m c j"
  using assms
proof (induction i m' en rule: ProcessEscapeMask_loop.induct)
  case (1 i m' en)
  show ?case
  proof (cases "i < 16")
    case False
    with "1.prems" show ?thesis
      by (subst ProcessEscapeMask_loop.simps) (simp add: CHARS_PER_128_BIT_REGISTER_def)
  next
    case True
    define m'' where "m'' = (if en then m' AND NOT (SSE_BITMASK i) else m')"
    define en' where "en' = (m'' AND SSE_BITMASK i \<noteq> 0)"
    have bi: "bit m'' i = escape_active m c i"
      using "1.prems"(2,3) by (simp add: m''_def bit_clear_SSE_BITMASK escape_active_rec)
    have lo: "\<forall>j<Suc i. bit m'' j = escape_active m c j"
      using "1.prems"(1) bi by (auto simp: m''_def bit_clear_SSE_BITMASK less_Suc_eq)
    have hi: "\<forall>j\<ge>Suc i. bit m'' j = bit m j"
      using "1.prems"(2) by (auto simp: m''_def bit_clear_SSE_BITMASK)
    have en: "en' = escaped_by_prev m c (Suc i)"
      using bi by (simp add: en'_def and_SSE_BITMASK_nonzero escaped_by_prev_def)
    have "ProcessEscapeMask_loop i m' en = ProcessEscapeMask_loop (Suc i) m'' en'"
      using True
      by (subst ProcessEscapeMask_loop.simps)
         (simp add: CHARS_PER_128_BIT_REGISTER_def m''_def en'_def Let_def)
    moreover have "bit (ProcessEscapeMask_loop (Suc i) m'' en') j = escape_active m c j"
      using True lo hi en "1.prems"(4)
      by (intro "1.IH" [of m'' en']) (simp_all add: CHARS_PER_128_BIT_REGISTER_def m''_def en'_def)
    ultimately show ?thesis by simp
  qed
qed

lemma ProcessEscapeMask_loop_0_bit:
  "bit (ProcessEscapeMask_loop 0 m c) j \<longleftrightarrow> j < 16 \<and> escape_active m c j"
proof (cases "j < 16")
  case True
  then show ?thesis
    using ProcessEscapeMask_loop_bit [of 0 m m c c j] by (simp add: escaped_by_prev_def)
next
  case False
  then show ?thesis using bit_imp_le_length [of "ProcessEscapeMask_loop 0 m c" j] by auto
qed

lemma bit_corrected_escape_mask:
  "bit (corrected_escape_mask m c) j \<longleftrightarrow> j < 16 \<and> escape_active m c j"
  by (auto simp: corrected_escape_mask_def bit_horner_sum_bit_word_iff)

lemma ProcessEscapeMask_loop_corrected:
  "ProcessEscapeMask_loop 0 m c = corrected_escape_mask m c"
  by (rule bit_eqI) (simp add: ProcessEscapeMask_loop_0_bit bit_corrected_escape_mask)

lemma ProcessEscapeMask_eq:
  "ProcessEscapeMask e c d =
     (bit (corrected_escape_mask e c) 15,
      d AND NOT (push_bit 1 (corrected_escape_mask e c) OR of_bool c))"
  by (simp add: ProcessEscapeMask_def Let_def ProcessEscapeMask_loop_corrected
      and_SSE_BITMASK_nonzero CHARS_PER_128_BIT_REGISTER_def of_bool_def)

lemma bit_shifted:
  "bit (push_bit 1 m OR of_bool c :: mask16) i \<longleftrightarrow> i < 16 \<and> (if i = 0 then c else bit m (i - 1))"
  using bit_imp_le_length [of m "i - 1"]
  by (cases i) (auto simp only: bit_or_iff bit_push_bit_iff bit_of_bool_iff possible_bit_word
      len_of_numeral_defs One_nat_def diff_Suc_1 simp_thms split: if_splits)

text \<open>
  C4.  For every escape mask \<open>e\<close>, incoming carry \<open>c\<close> and delimiter mask \<open>d\<close>:
  the outgoing carry is bit 15 of the escape mask after parity correction; the corrected
  mask is shifted left by one bit and the incoming carry is ORed into bit 0; and the new
  delimiter mask keeps exactly the bits of \<open>d\<close> whose bit in the shifted mask is clear.
\<close>

theorem ProcessEscapeMask_carry_shift_clear:
  "fst (ProcessEscapeMask e c d) = bit (corrected_escape_mask e c) 15
   \<and> snd (ProcessEscapeMask e c d)
       = d AND NOT (push_bit 1 (corrected_escape_mask e c) OR of_bool c)
   \<and> bit (push_bit 1 (corrected_escape_mask e c) OR of_bool c :: mask16) 0 = c
   \<and> bit (snd (ProcessEscapeMask e c d)) i
       = (bit d i \<and> \<not> bit (push_bit 1 (corrected_escape_mask e c) OR of_bool c :: mask16) i)"
proof -
  have "bit (push_bit 1 (corrected_escape_mask e c) OR of_bool c :: mask16) 0 = c"
    by (simp only: bit_shifted) simp
  moreover have "bit (d AND NOT (push_bit 1 (corrected_escape_mask e c) OR of_bool c)) i
       = (bit d i \<and> \<not> bit (push_bit 1 (corrected_escape_mask e c) OR of_bool c :: mask16) i)"
    using bit_imp_le_length [of d i] by (auto simp only: bit_and_iff bit_not_iff possible_bit_word)
  ultimately show ?thesis
    by (simp only: ProcessEscapeMask_eq fst_conv snd_conv simp_thms)
qed

text \<open>
  C9.  The corrected delimiter mask is a bitwise subset of the input delimiter mask:
  ORing it into the input changes nothing, and it has no bit outside the input.
\<close>

theorem ProcessEscapeMask_only_clears:
  "snd (ProcessEscapeMask e c d) OR d = d \<and> snd (ProcessEscapeMask e c d) AND NOT d = 0"
  by (auto simp add: ProcessEscapeMask_eq bit_eq_iff bit_or_iff bit_and_iff bit_not_iff)

text \<open>
  C10.  Two calls that agree on the escape mask and the incoming carry return the same
  carry, whatever their delimiter masks are.
\<close>

theorem ProcessEscapeMask_carry_independent:
  "fst (ProcessEscapeMask e c d1) = fst (ProcessEscapeMask e c d2)"
  by (simp add: ProcessEscapeMask_eq)

subsection \<open>AddColumn\<close>

text \<open>
  C7, amended.  For every call to \<open>AddColumn\<close> that does not fail the capacity check:
  if the projection materialises the current column, the pair (next-column-start, length)
  is written into slot \<open>num_fields\<close>, the length negated exactly when escape processing is
  active and the column was flagged escaped, and the field counter is incremented;
  otherwise the output is untouched.  In both cases next-column-start advances by
  \<open>length + 1\<close> and \<open>column_idx\<close> is incremented; the per-column escape flag is
  reset when escape processing is active and left as it is when it is not.
\<close>

theorem AddColumn_effect:
  assumes "ReturnCurrentColumn cfg (column_idx s) \<longrightarrow>
             0 \<le> num_fields s \<and> num_fields s < int (length (field_locations s))"
  shows "\<exists>s'. AddColumn pe cfg n s = Inr s'
      \<and> (if ReturnCurrentColumn cfg (column_idx s)
         then field_locations s' = (field_locations s)[nat (num_fields s) :=
                \<lparr>start = next_column_start s,
                 len = (if pe \<and> current_column_has_escape s then - n else n)\<rparr>]
              \<and> num_fields s' = num_fields s + 1
         else field_locations s' = field_locations s \<and> num_fields s' = num_fields s)
      \<and> current_column_has_escape s' = (\<not> pe \<and> current_column_has_escape s)
      \<and> next_column_start s' = next_column_start s + (n + 1)
      \<and> column_idx s' = column_idx s + 1"
  using assms by (auto simp: AddColumn_def Let_def)

theorem AddColumn_effect_witness:
  "\<exists>s'. AddColumn True (csv_config 0) 4
           ((initial_state 0 16)\<lparr>current_column_has_escape := True\<rparr>) = Inr s'
      \<and> field_locations s' = (replicate 8 \<lparr>start = 0, len = 0\<rparr>)[0 := \<lparr>start = 0, len = - 4\<rparr>]
      \<and> num_fields s' = 1
      \<and> \<not> current_column_has_escape s'
      \<and> next_column_start s' = 5
      \<and> column_idx s' = 1"
  using AddColumn_effect [of "csv_config 0"
      "(initial_state 0 16)\<lparr>current_column_has_escape := True\<rparr>" True 4]
  by (simp add: csv_config_def initial_state_def)

text \<open>
  The specification has the flag reset in every call.  Without escape processing it is
  not: line 48 is guarded by \<open>process_escapes\<close>, and a flag that is set stays set.
\<close>

theorem AddColumn_no_escape_keeps_flag:
  "\<not> isl (AddColumn False (csv_config 0) 4
             ((initial_state 0 16)\<lparr>current_column_has_escape := True\<rparr>))
   \<and> current_column_has_escape
       (projr (AddColumn False (csv_config 0) 4
                 ((initial_state 0 16)\<lparr>current_column_has_escape := True\<rparr>)))"
  by (simp add: AddColumn_def csv_config_def initial_state_def)

lemma AddColumn_fields:
  assumes "AddColumn pe cfg n s = Inr s'"
  shows "length (field_locations s') = length (field_locations s)"
    and "num_fields s \<le> num_fields s'"
    and "0 \<le> i \<Longrightarrow> i < num_fields s \<Longrightarrow> field_locations s' ! nat i = field_locations s ! nat i"
  using assms by (auto simp: AddColumn_def Let_def split: if_splits)

lemma AddColumn_written:
  assumes "AddColumn pe cfg n s = Inr s'" "num_fields s \<le> i" "i < num_fields s'"
  shows "i = num_fields s \<and> 0 \<le> i \<and> i < int (length (field_locations s))
    \<and> field_locations s' ! nat i =
        \<lparr>start = next_column_start s, len = (if pe \<and> current_column_has_escape s then - n else n)\<rparr>"
  using assms by (auto simp: AddColumn_def Let_def split: if_splits)

lemma AddColumns_fields:
  "AddColumns pe cfg ns s = Inr s' \<Longrightarrow>
     length (field_locations s') = length (field_locations s) \<and> num_fields s \<le> num_fields s'
     \<and> (\<forall>i. 0 \<le> i \<and> i < num_fields s \<longrightarrow> field_locations s' ! nat i = field_locations s ! nat i)"
proof (induction ns arbitrary: s)
  case Nil
  then show ?case by simp
next
  case (Cons n ns)
  then obtain s1 where 1: "AddColumn pe cfg n s = Inr s1" and 2: "AddColumns pe cfg ns s1 = Inr s'"
    by (auto split: sum.splits)
  from Cons.IH [OF 2] AddColumn_fields [OF 1] show ?case by force
qed

lemma AddColumns_no_escape_lengths:
  assumes "AddColumns False cfg ns s = Inr s'"
    and "\<forall>n\<in>set ns. 0 \<le> n"
    and "num_fields s \<le> i" and "i < num_fields s'"
  shows "0 \<le> len (field_locations s' ! nat i)"
  using assms
proof (induction ns arbitrary: s)
  case Nil
  then show ?case by simp
next
  case (Cons n ns)
  then obtain s1 where 1: "AddColumn False cfg n s = Inr s1"
    and 2: "AddColumns False cfg ns s1 = Inr s'"
    by (auto split: sum.splits)
  show ?case
  proof (cases "num_fields s1 \<le> i")
    case True
    with Cons.IH [OF 2] Cons.prems show ?thesis by simp
  next
    case False
    with Cons.prems(3) have w: "i < num_fields s1" by simp
    from AddColumn_written [OF 1 Cons.prems(3) w]
    have "0 \<le> i" and e: "field_locations s1 ! nat i = \<lparr>start = next_column_start s, len = n\<rparr>"
      by auto
    with AddColumns_fields [OF 2] w
    have "field_locations s' ! nat i = \<lparr>start = next_column_start s, len = n\<rparr>" by simp
    with Cons.prems(2) show ?thesis by simp
  qed
qed

subsection \<open>The early exit at the tuple bound\<close>


text \<open>
  A call entered with fewer than \<open>max_tuples\<close> tuples never counts past \<open>max_tuples\<close>.
\<close>

lemma process_delim_num_tuples:
  assumes "process_delim pe cfg mem k e n l s = Inr (r, l', s')" "num_tuples s < k"
  shows "num_tuples s \<le> num_tuples s' \<and> (if r then num_tuples s' = k else num_tuples s' < k)"
  using assms
  by (auto simp: process_delim_def mark_escape_def Let_def
      split: sum.splits if_splits dest: AddColumn_frame)

lemma walk_delim_mask_num_tuples:
  "walk_delim_mask pe cfg mem k e d l s = Inr (r, l', s') \<Longrightarrow> num_tuples s < k \<Longrightarrow>
     num_tuples s \<le> num_tuples s' \<and> (if r then num_tuples s' = k else num_tuples s' < k)"
proof (induction pe cfg mem k e d l s rule: walk_delim_mask.induct)
  case (1 pe cfg mem k e d l s)
  show ?case
  proof (cases "d = 0")
    case True
    with "1.prems" show ?thesis by simp
  next
    case False
    let ?n = "ffs d - 1"
    from "1.prems"(1) obtain r1 l1 s1 where
      pd: "process_delim pe cfg mem k e ?n l s = Inr (r1, l1, s1)"
      unfolding walk_delim_mask_step [OF False]
      by (auto split: sum.splits)
    note step = process_delim_num_tuples [OF pd "1.prems"(2)]
    show ?thesis
    proof (cases r1)
      case True
      with "1.prems"(1) pd have "r = True" "s' = s1"
        unfolding walk_delim_mask_step [OF False] by simp_all
      with step True show ?thesis by simp
    next
      case r1: False
      with "1.prems"(1) pd have
        rest: "walk_delim_mask pe cfg mem k e (d AND NOT (SSE_BITMASK ?n)) l1 s1 = Inr (r, l', s')"
        unfolding walk_delim_mask_step [OF False] by simp
      from step r1 have lt: "num_tuples s1 < k" by simp
      from "1.IH" [OF False refl refl pd refl refl r1 rest lt] step show ?thesis
        by (cases r) simp_all
    qed
  qed
qed

lemma parse_window_num_tuples:
  assumes "parse_window pe cfg mem k s = Inr (r, s')" "num_tuples s < k"
  shows "num_tuples s \<le> num_tuples s' \<and> (if r then num_tuples s' = k else num_tuples s' < k)"
proof -
  from assms(1) obtain e d s0 l2 s2 where
    w: "walk_delim_mask pe cfg mem k e d 0 s0 = Inr (r, l2, s2)"
    and s0: "num_tuples s0 = num_tuples s" and s': "num_tuples s' = num_tuples s2"
    unfolding parse_window_unfold
    by (cases pe) (auto simp: mark_unprocessed_escape_def split: sum.splits if_splits)
  from walk_delim_mask_num_tuples [OF w] assms(2) s0 s' show ?thesis by simp
qed

lemma ParseSse_num_tuples:
  "ParseSse pe cfg mem k s = Inr s' \<Longrightarrow> num_tuples s < k \<Longrightarrow>
     num_tuples s \<le> num_tuples s' \<and> num_tuples s' \<le> k"
proof (induction pe cfg mem k s rule: ParseSse.induct)
  case (1 pe cfg mem k s)
  show ?case
  proof (cases "remaining_len s \<ge> 16")
    case False
    with "1.prems" show ?thesis
      by (simp add: ParseSse.simps [of pe cfg mem k s] CHARS_PER_128_BIT_REGISTER_def)
  next
    case True
    with "1.prems"(1) obtain r s1 where pw: "parse_window pe cfg mem k s = Inr (r, s1)"
      by (auto simp: ParseSse.simps [of pe cfg mem k s] CHARS_PER_128_BIT_REGISTER_def
          split: sum.splits)
    note win = parse_window_num_tuples [OF pw "1.prems"(2)]
    show ?thesis
    proof (cases r)
      case True
      with "1.prems"(1) pw \<open>remaining_len s \<ge> 16\<close> have "s' = s1"
        by (simp add: ParseSse.simps [of pe cfg mem k s] CHARS_PER_128_BIT_REGISTER_def)
      with win True show ?thesis by simp
    next
      case r: False
      with "1.prems"(1) pw True have rest: "ParseSse pe cfg mem k s1 = Inr s'"
        by (simp add: ParseSse.simps [of pe cfg mem k s] CHARS_PER_128_BIT_REGISTER_def)
      have big: "int CHARS_PER_128_BIT_REGISTER \<le> remaining_len s"
        using True by (simp add: CHARS_PER_128_BIT_REGISTER_def)
      from win r have lt: "num_tuples s1 < k" by simp
      from "1.IH" [OF big pw refl r rest lt] win show ?thesis by simp
    qed
  qed
qed

text \<open>
  C1.  A 16-byte buffer \<open>a\n\<close> followed by 14 \<open>x\<close>, \<open>max_tuples = 1\<close>: the tuple
  delimiter is found at window position 1 and the call returns with one tuple end and the
  pointer advanced by 2, the carry false; but line 148 adds the 2 consumed bytes to
  \<open>remaining_len\<close> (18) where the cursor should have 14 bytes left.
\<close>

theorem ParseSse_early_exit_grows_remaining_len:
  "ParseSse False (csv_config 0) (mem_of ([97, 10] @ replicate 14 120)) 1 (initial_state 0 16) =
     Inr ((initial_state 0 16)\<lparr>remaining_len := 18, byte_buffer_ptr := 2,
        row_end_locations := [1, 0, 0, 0],
        field_locations := \<lparr>start = 0, len = 1\<rparr> # replicate 7 \<lparr>start = 0, len = 0\<rparr>,
        num_tuples := 1, num_fields := 1, next_column_start := 2, column_idx := 0\<rparr>)"
  by code_simp

subsection \<open>Partition keys\<close>

lemma AddColumn_skip_partition_keys:
  "num_partition_keys cfg \<le> column_idx s \<Longrightarrow>
     AddColumn pe (skip_partition_keys cfg) n s = AddColumn pe cfg n s"
  by (simp add: AddColumn_def skip_partition_keys_def)

lemma AddColumn_column_idx:
  "AddColumn pe cfg n s = Inr s' \<Longrightarrow> column_idx s' = column_idx s + 1"
  by (auto simp: AddColumn_def Let_def split: if_splits)

lemma skip_partition_keys_sel:
  "tuple_delim (skip_partition_keys cfg) = tuple_delim cfg"
  "num_partition_keys (skip_partition_keys cfg) = num_partition_keys cfg"
  "escape_char (skip_partition_keys cfg) = escape_char cfg"
  "is_delim (skip_partition_keys cfg) = is_delim cfg"
  "mark_escape (skip_partition_keys cfg) = mark_escape cfg"
  "mark_unprocessed_escape (skip_partition_keys cfg) = mark_unprocessed_escape cfg"
  by (auto simp: skip_partition_keys_def is_delim_def mark_escape_def
      mark_unprocessed_escape_def fun_eq_iff)

lemma process_delim_skip_partition_keys:
  assumes "num_partition_keys cfg \<le> column_idx s"
  shows "process_delim pe (skip_partition_keys cfg) mem k e n l s
           = process_delim pe cfg mem k e n l s"
proof -
  have "num_partition_keys cfg \<le> column_idx (mark_escape cfg e l n s)"
    using assms by (simp add: mark_escape_def)
  with assms show ?thesis
    by (auto simp: process_delim_def AddColumn_skip_partition_keys skip_partition_keys_sel Let_def
        split: sum.splits)
qed

lemma process_delim_column_idx:
  assumes "process_delim pe cfg mem k e n l s = Inr (r, l', s')"
  shows "mem (byte_buffer_ptr s + int n) = tuple_delim cfg \<Longrightarrow>
           column_idx s' = num_partition_keys cfg"
    and "num_partition_keys cfg \<le> column_idx s \<Longrightarrow> num_partition_keys cfg \<le> column_idx s'"
  using assms
  by (auto simp: process_delim_def mark_escape_def Let_def
      split: sum.splits if_splits dest: AddColumn_frame AddColumn_column_idx)

lemma walk_delim_mask_skip_partition_keys:
  "num_partition_keys cfg \<le> column_idx s \<Longrightarrow>
     walk_delim_mask pe (skip_partition_keys cfg) mem k e d l s = walk_delim_mask pe cfg mem k e d l s
     \<and> (\<forall>r l' s'. walk_delim_mask pe cfg mem k e d l s = Inr (r, l', s') \<longrightarrow>
           num_partition_keys cfg \<le> column_idx s')"
proof (induction pe cfg mem k e d l s rule: walk_delim_mask.induct)
  case (1 pe cfg mem k e d l s)
  show ?case
  proof (cases "d = 0")
    case True
    with "1.prems" show ?thesis by simp
  next
    case False
    let ?n = "ffs d - 1"
    let ?d' = "d AND NOT (SSE_BITMASK ?n)"
    note step = process_delim_skip_partition_keys [OF "1.prems", of pe mem k e ?n l]
    show ?thesis
    proof (cases "process_delim pe cfg mem k e ?n l s")
      case (Inl err)
      with step False show ?thesis by (simp add: walk_delim_mask_step)
    next
      case (Inr res)
      obtain r l1 s1 where res: "res = (r, l1, s1)" by (cases res)
      note pd = Inr [unfolded res]
      have inv: "num_partition_keys cfg \<le> column_idx s1"
        using process_delim_column_idx(2) [OF pd "1.prems"] .
      show ?thesis
      proof (cases r)
        case True
        with pd step False inv show ?thesis by (simp add: walk_delim_mask_step)
      next
        case r: False
        from "1.IH" [OF False refl refl pd refl refl r inv]
        have "walk_delim_mask pe (skip_partition_keys cfg) mem k e ?d' l1 s1
               = walk_delim_mask pe cfg mem k e ?d' l1 s1
          \<and> (\<forall>r l' s'. walk_delim_mask pe cfg mem k e ?d' l1 s1 = Inr (r, l', s') \<longrightarrow>
                num_partition_keys cfg \<le> column_idx s')"
          by simp
        with pd r step False show ?thesis by (simp add: walk_delim_mask_step)
      qed
    qed
  qed
qed

lemma parse_window_skip_partition_keys:
  assumes "num_partition_keys cfg \<le> column_idx s"
  shows "parse_window pe (skip_partition_keys cfg) mem k s = parse_window pe cfg mem k s"
    and "parse_window pe cfg mem k s = Inr (r, s') \<Longrightarrow> num_partition_keys cfg \<le> column_idx s'"
proof -
  let ?e = "if pe then strchr_mask (\<lambda>b. b = escape_char cfg) mem (byte_buffer_ptr s) else 0"
  let ?pem = "ProcessEscapeMask (strchr_mask (\<lambda>b. b = escape_char cfg) mem (byte_buffer_ptr s))
     (last_char_is_escape s) (strchr_mask (is_delim cfg) mem (byte_buffer_ptr s))"
  let ?s1 = "if pe then s\<lparr>last_char_is_escape := fst ?pem\<rparr> else s"
  let ?d = "if pe then snd ?pem else strchr_mask (is_delim cfg) mem (byte_buffer_ptr s)"
  have s1: "num_partition_keys cfg \<le> column_idx ?s1" using assms by simp
  note w = walk_delim_mask_skip_partition_keys [OF s1, of pe mem k ?e ?d 0]
  show "parse_window pe (skip_partition_keys cfg) mem k s = parse_window pe cfg mem k s"
    unfolding parse_window_unfold skip_partition_keys_sel conjunct1 [OF w]
    by (auto split: sum.splits)
  show "num_partition_keys cfg \<le> column_idx s'" if "parse_window pe cfg mem k s = Inr (r, s')"
  proof (cases "walk_delim_mask pe cfg mem k ?e ?d 0 ?s1")
    case (Inl err)
    with that show ?thesis unfolding parse_window_unfold by (simp split: if_splits)
  next
    case (Inr res)
    obtain r2 l2 s2 where res: "res = (r2, l2, s2)" by (cases res)
    from w Inr res have "num_partition_keys cfg \<le> column_idx s2" by blast
    with that show ?thesis
      unfolding parse_window_unfold Inr res
      by (auto simp: mark_unprocessed_escape_def split: if_splits)
  qed
qed

lemma ParseSse_skip_partition_keys:
  "num_partition_keys cfg \<le> column_idx s \<Longrightarrow>
     ParseSse pe (skip_partition_keys cfg) mem k s = ParseSse pe cfg mem k s
     \<and> (\<forall>s'. ParseSse pe cfg mem k s = Inr s' \<longrightarrow> num_partition_keys cfg \<le> column_idx s')"
proof (induction pe cfg mem k s rule: ParseSse.induct)
  case (1 pe cfg mem k s)
  note pw = parse_window_skip_partition_keys [OF "1.prems", of pe mem k]
  show ?case
  proof (cases "remaining_len s \<ge> int CHARS_PER_128_BIT_REGISTER")
    case False
    with "1.prems" show ?thesis
      by (simp add: ParseSse.simps [of pe cfg mem k s]
          ParseSse.simps [of pe "skip_partition_keys cfg" mem k s])
  next
    case True
    show ?thesis
    proof (cases "parse_window pe cfg mem k s")
      case (Inl err)
      with True pw(1) show ?thesis
        by (simp add: ParseSse.simps [of pe cfg mem k s]
            ParseSse.simps [of pe "skip_partition_keys cfg" mem k s])
    next
      case (Inr res)
      obtain r s1 where res: "res = (r, s1)" by (cases res)
      note p = Inr [unfolded res]
      have inv: "num_partition_keys cfg \<le> column_idx s1" using pw(2) [OF p] .
      show ?thesis
      proof (cases r)
        case True
        with p pw(1) inv \<open>remaining_len s \<ge> int CHARS_PER_128_BIT_REGISTER\<close> show ?thesis
          by (simp add: ParseSse.simps [of pe cfg mem k s]
              ParseSse.simps [of pe "skip_partition_keys cfg" mem k s])
      next
        case r: False
        from "1.IH" [OF True p refl r inv]
        have "ParseSse pe (skip_partition_keys cfg) mem k s1 = ParseSse pe cfg mem k s1
          \<and> (\<forall>s'. ParseSse pe cfg mem k s1 = Inr s' \<longrightarrow> num_partition_keys cfg \<le> column_idx s')"
          by simp
        with p r pw(1) True show ?thesis
          by (simp add: ParseSse.simps [of pe cfg mem k s]
              ParseSse.simps [of pe "skip_partition_keys cfg" mem k s])
      qed
    qed
  qed
qed

text \<open>
  C6, amended.  Whenever the body of the inner loop has processed a byte equal to the tuple
  delimiter, from whatever state \<open>t\<close>, \<open>column_idx\<close> equals the partition-key count
  afterwards.  For a scan
  entered with \<open>column_idx\<close> at or above the partition-key count (where every tuple
  boundary leaves it), \<open>column_idx\<close> never falls below that count, and the call
  never records a column below it: a projection that refuses all those columns gives the
  same result.
\<close>

theorem partition_key_skip:
  assumes "num_partition_keys cfg \<le> column_idx s"
  shows "(\<forall>t e n l r l' t'.
            process_delim pe cfg mem k e n l t = Inr (r, l', t')
            \<and> mem (byte_buffer_ptr t + int n) = tuple_delim cfg
            \<longrightarrow> column_idx t' = num_partition_keys cfg)
       \<and> ParseSse pe (skip_partition_keys cfg) mem k s = ParseSse pe cfg mem k s
       \<and> (\<forall>s'. ParseSse pe cfg mem k s = Inr s' \<longrightarrow> num_partition_keys cfg \<le> column_idx s')"
  using ParseSse_skip_partition_keys [OF assms, of pe mem k] process_delim_column_idx(1)
  by blast

theorem partition_key_skip_witness:
  "num_partition_keys (csv_config 2) \<le> column_idx (initial_state 2 16)
   \<and> ParseSse False (skip_partition_keys (csv_config 2))
        (mem_of ([97, 44, 98, 10] @ replicate 12 120)) 4 (initial_state 2 16)
     = ParseSse False (csv_config 2)
        (mem_of ([97, 44, 98, 10] @ replicate 12 120)) 4 (initial_state 2 16)"
  using partition_key_skip [of "csv_config 2" "initial_state 2 16" False
      "mem_of ([97, 44, 98, 10] @ replicate 12 120)" 4]
  by (simp add: csv_config_def initial_state_def)

text \<open>
  The specification states this of every execution.  Entered with \<open>column_idx = 0\<close> in
  a table with 2 partition keys whose projection materialises every column, the scan of
  \<open>a,b\n\<close> followed by 12 \<open>x\<close> records the columns 0 and 1; the projection that refuses
  the columns below 2 records nothing.
\<close>

theorem partition_key_recorded_when_entered_below:
  "column_idx (initial_state 0 16) < num_partition_keys (csv_config 2)
   \<and> ParseSse False (csv_config 2) (mem_of ([97, 44, 98, 10] @ replicate 12 120)) 4
        (initial_state 0 16)
     = Inr ((initial_state 0 16)\<lparr>remaining_len := 0, byte_buffer_ptr := 16,
         row_end_locations := [3, 0, 0, 0],
         field_locations := [\<lparr>start = 0, len = 1\<rparr>, \<lparr>start = 2, len = 1\<rparr>]
            @ replicate 6 \<lparr>start = 0, len = 0\<rparr>,
         num_tuples := 1, num_fields := 2, next_column_start := 4, column_idx := 2\<rparr>)
   \<and> ParseSse False (skip_partition_keys (csv_config 2))
        (mem_of ([97, 44, 98, 10] @ replicate 12 120)) 4 (initial_state 0 16)
     = Inr ((initial_state 0 16)\<lparr>remaining_len := 0, byte_buffer_ptr := 16,
         row_end_locations := [3, 0, 0, 0],
         num_tuples := 1, next_column_start := 4, column_idx := 2\<rparr>)"
proof -
  have "column_idx (initial_state 0 16) < num_partition_keys (csv_config 2)"
    by (simp add: initial_state_def csv_config_def)
  moreover have "ParseSse False (csv_config 2) (mem_of ([97, 44, 98, 10] @ replicate 12 120)) 4
        (initial_state 0 16)
     = Inr ((initial_state 0 16)\<lparr>remaining_len := 0, byte_buffer_ptr := 16,
         row_end_locations := [3, 0, 0, 0],
         field_locations := [\<lparr>start = 0, len = 1\<rparr>, \<lparr>start = 2, len = 1\<rparr>]
            @ replicate 6 \<lparr>start = 0, len = 0\<rparr>,
         num_tuples := 1, num_fields := 2, next_column_start := 4, column_idx := 2\<rparr>)"
    by code_simp
  moreover have "ParseSse False (skip_partition_keys (csv_config 2))
        (mem_of ([97, 44, 98, 10] @ replicate 12 120)) 4 (initial_state 0 16)
     = Inr ((initial_state 0 16)\<lparr>remaining_len := 0, byte_buffer_ptr := 16,
         row_end_locations := [3, 0, 0, 0],
         num_tuples := 1, next_column_start := 4, column_idx := 2\<rparr>)"
    by code_simp
  ultimately show ?thesis by (simp only: simp_thms)
qed

subsection \<open>Field lengths without escape processing\<close>

lemma fields_nonneg_refl: "fields_nonneg s s"
  by (simp add: fields_nonneg_def)

lemma fields_nonneg_trans:
  assumes "fields_nonneg s s1" "fields_nonneg s1 s2"
  shows "fields_nonneg s s2"
  unfolding fields_nonneg_def
proof (intro conjI allI impI)
  show "length (field_locations s2) = length (field_locations s)"
    using assms by (simp add: fields_nonneg_def)
  show "num_fields s \<le> num_fields s2"
    using assms by (simp add: fields_nonneg_def)
next
  fix i assume "0 \<le> i \<and> i < num_fields s"
  then show "field_locations s2 ! nat i = field_locations s ! nat i"
    using assms by (simp add: fields_nonneg_def)
next
  fix i assume i: "num_fields s \<le> i \<and> i < num_fields s2"
  show "0 \<le> i" using i assms unfolding fields_nonneg_def
    by (metis linorder_not_le)
  show "0 \<le> len (field_locations s2 ! nat i)"
    using i assms unfolding fields_nonneg_def
    by (metis linorder_not_le)
qed

lemma fields_nonneg_cong:
  "field_locations t = field_locations s' \<Longrightarrow> num_fields t = num_fields s' \<Longrightarrow>
     fields_nonneg s s' \<Longrightarrow> fields_nonneg s t"
  by (simp add: fields_nonneg_def)

lemma AddColumn_no_escape_fields_nonneg:
  assumes "AddColumn False cfg n s = Inr s'" "0 \<le> n"
  shows "fields_nonneg s s'"
  using assms by (auto simp: AddColumn_def Let_def fields_nonneg_def split: if_splits)

lemma to_int32_id: "- (2 ^ 31) \<le> x \<Longrightarrow> x < 2 ^ 31 \<Longrightarrow> to_int32 x = x"
  by (simp add: to_int32_def)

lemma process_delim_no_escape:
  assumes "process_delim False cfg mem k e n l s = Inr (r, l', s')"
    and "next_column_start s \<le> byte_buffer_ptr s + int n"
    and "byte_buffer_ptr s + int n - next_column_start s < 2 ^ 31"
  shows "fields_nonneg s s'"
    and "next_column_start s' = byte_buffer_ptr s + int n + 1"
    and "byte_buffer_ptr s' = (if r then byte_buffer_ptr s + int n + 1 else byte_buffer_ptr s)"
proof -
  have narrow: "to_int32 (byte_buffer_ptr s + int n - next_column_start s)
      = byte_buffer_ptr s + int n - next_column_start s"
    using assms(2,3) by (intro to_int32_id) simp_all
  from assms(1) obtain s2 where
    ac: "AddColumn False cfg (byte_buffer_ptr s + int n - next_column_start s) s = Inr s2"
    by (auto simp: process_delim_def Let_def narrow split: sum.splits)
  from assms(2) have f: "fields_nonneg s s2"
    by (intro AddColumn_no_escape_fields_nonneg [OF ac]) simp
  from ac have n2: "next_column_start s2 = byte_buffer_ptr s + int n + 1"
    by (auto simp: AddColumn_def Let_def split: if_splits)
  from assms(1) ac have same: "field_locations s' = field_locations s2"
    "num_fields s' = num_fields s2" "next_column_start s' = next_column_start s2"
    "byte_buffer_ptr s' = (if r then byte_buffer_ptr s2 + int n + 1 else byte_buffer_ptr s2)"
    by (auto simp: process_delim_def Let_def narrow split: if_splits)
  from same(1,2) f show "fields_nonneg s s'" by (rule fields_nonneg_cong)
  from same(3) n2 show "next_column_start s' = byte_buffer_ptr s + int n + 1" by simp
  from same(4) AddColumn_frame(2) [OF ac]
  show "byte_buffer_ptr s' = (if r then byte_buffer_ptr s + int n + 1 else byte_buffer_ptr s)"
    by simp
qed

lemma ffs_least: "bit w i \<Longrightarrow> ffs w - 1 \<le> i"
proof -
  assume b: "bit w i"
  then have i: "i < 16" using bit_imp_le_length [of w i] by simp
  with b have "find (bit w) [0..<16] \<noteq> None" by (auto simp: find_None_iff)
  then obtain j where j: "find (bit w) [0..<16] = Some j" by blast
  then have "\<forall>m<j. \<not> bit w m"
    by (auto simp: find_Some_iff)
  with b have "j \<le> i" by (meson not_le)
  with j show ?thesis by (simp add: ffs_def)
qed

lemma walk_delim_mask_no_escape:
  "walk_delim_mask False cfg mem k e d l s = Inr (r, l', s') \<Longrightarrow>
   \<forall>i. bit d i \<longrightarrow> next_column_start s \<le> byte_buffer_ptr s + int i \<Longrightarrow>
   next_column_start s \<le> byte_buffer_ptr s + 16 \<Longrightarrow>
   byte_buffer_ptr s + 16 - next_column_start s \<le> 2 ^ 31 \<Longrightarrow>
     fields_nonneg s s' \<and> next_column_start s \<le> next_column_start s'
     \<and> (if r then next_column_start s' \<le> byte_buffer_ptr s'
         else byte_buffer_ptr s' = byte_buffer_ptr s
              \<and> next_column_start s' \<le> byte_buffer_ptr s + 16)"
proof (induction False cfg mem k e d l s rule: walk_delim_mask.induct)
  case (1 cfg mem k e d l s)
  show ?case
  proof (cases "d = 0")
    case True
    with "1.prems" show ?thesis by (simp add: fields_nonneg_refl)
  next
    case False
    let ?n = "ffs d - 1"
    let ?d' = "d AND NOT (SSE_BITMASK ?n)"
    have n: "bit d ?n" "?n < 16" using ffs_bit [OF False] by simp_all
    from "1.prems"(1) obtain r1 l1 s1 where
      pd: "process_delim False cfg mem k e ?n l s = Inr (r1, l1, s1)"
      unfolding walk_delim_mask_step [OF False]
      by (auto split: sum.splits)
    from n(1) "1.prems"(2) have pre: "next_column_start s \<le> byte_buffer_ptr s + int ?n" by simp
    from n(2) "1.prems"(4)
    have fits: "byte_buffer_ptr s + int ?n - next_column_start s < 2 ^ 31" by simp
    note step = process_delim_no_escape [OF pd pre fits]
    from step(2) pre have mono: "next_column_start s \<le> next_column_start s1" by simp
    show ?thesis
    proof (cases r1)
      case True
      with "1.prems"(1) pd have "r = True" "s' = s1"
        unfolding walk_delim_mask_step [OF False] by simp_all
      with step mono True show ?thesis by simp
    next
      case r1: False
      with "1.prems"(1) pd have
        rest: "walk_delim_mask False cfg mem k e ?d' l1 s1 = Inr (r, l', s')"
        unfolding walk_delim_mask_step [OF False] by simp
      from step r1 have ptr: "byte_buffer_ptr s1 = byte_buffer_ptr s"
        and ncs: "next_column_start s1 = byte_buffer_ptr s + int ?n + 1" by simp_all
      have bits: "\<forall>i. bit ?d' i \<longrightarrow> next_column_start s1 \<le> byte_buffer_ptr s1 + int i"
      proof (intro allI impI)
        fix i assume "bit ?d' i"
        then have "bit d i" "i \<noteq> ?n"
          by (simp_all add: bit_clear_SSE_BITMASK)
        with ffs_least [of d i] have "?n < i" by simp
        with ptr ncs show "next_column_start s1 \<le> byte_buffer_ptr s1 + int i" by simp
      qed
      have top: "next_column_start s1 \<le> byte_buffer_ptr s1 + 16"
        using ptr ncs n(2) by simp
      have span: "byte_buffer_ptr s1 + 16 - next_column_start s1 \<le> 2 ^ 31"
        using ptr ncs by simp
      from "1.hyps" [OF False refl refl pd refl refl r1 rest bits top span] ptr
      have "fields_nonneg s1 s' \<and> next_column_start s1 \<le> next_column_start s'
        \<and> (if r then next_column_start s' \<le> byte_buffer_ptr s'
         else byte_buffer_ptr s' = byte_buffer_ptr s
              \<and> next_column_start s' \<le> byte_buffer_ptr s + 16)"
        by (cases r) simp_all
      with fields_nonneg_trans [OF step(1)] mono show ?thesis by simp
    qed
  qed
qed

lemma parse_window_no_escape:
  assumes "parse_window False cfg mem k s = Inr (r, s')"
    and "next_column_start s \<le> byte_buffer_ptr s"
    and "byte_buffer_ptr s + 16 - next_column_start s \<le> 2 ^ 31"
  shows "fields_nonneg s s' \<and> next_column_start s' \<le> byte_buffer_ptr s'
    \<and> next_column_start s \<le> next_column_start s'"
proof -
  let ?d = "strchr_mask (is_delim cfg) mem (byte_buffer_ptr s)"
  from assms(1) obtain l2 s2 where
    w: "walk_delim_mask False cfg mem k 0 ?d 0 s = Inr (r, l2, s2)"
    and s': "s' = (if r then s2 else s2\<lparr>remaining_len := remaining_len s2 - 16,
                 byte_buffer_ptr := byte_buffer_ptr s2 + 16\<rparr>)"
    unfolding parse_window_unfold
    by (auto split: sum.splits if_splits)
  from walk_delim_mask_no_escape [OF w] assms(2,3)
  have "fields_nonneg s s2 \<and> next_column_start s \<le> next_column_start s2
     \<and> (if r then next_column_start s2 \<le> byte_buffer_ptr s2
         else byte_buffer_ptr s2 = byte_buffer_ptr s
              \<and> next_column_start s2 \<le> byte_buffer_ptr s + 16)"
    by simp
  then show ?thesis
    unfolding s' by (auto simp: fields_nonneg_def)
qed

lemma ParseSse_no_escape:
  "ParseSse False cfg mem k s = Inr s' \<Longrightarrow> next_column_start s \<le> byte_buffer_ptr s \<Longrightarrow>
   byte_buffer_ptr s + remaining_len s - next_column_start s \<le> 2 ^ 31 \<Longrightarrow>
     fields_nonneg s s'"
proof (induction False cfg mem k s rule: ParseSse.induct)
  case (1 cfg mem k s)
  show ?case
  proof (cases "remaining_len s \<ge> 16")
    case False
    with "1.prems"(1) show ?thesis
      by (simp add: ParseSse.simps [of False cfg mem k s] CHARS_PER_128_BIT_REGISTER_def
          fields_nonneg_refl)
  next
    case True
    with "1.prems"(1) obtain r s1 where pw: "parse_window False cfg mem k s = Inr (r, s1)"
      by (auto simp: ParseSse.simps [of False cfg mem k s] CHARS_PER_128_BIT_REGISTER_def
          split: sum.splits)
    from True "1.prems"(3)
    have span: "byte_buffer_ptr s + 16 - next_column_start s \<le> 2 ^ 31" by simp
    note win = parse_window_no_escape [OF pw "1.prems"(2) span]
    show ?thesis
    proof (cases r)
      case True
      with "1.prems"(1) pw \<open>remaining_len s \<ge> 16\<close> have "s' = s1"
        by (simp add: ParseSse.simps [of False cfg mem k s] CHARS_PER_128_BIT_REGISTER_def)
      with win show ?thesis by simp
    next
      case r: False
      with "1.prems"(1) pw True have rest: "ParseSse False cfg mem k s1 = Inr s'"
        by (simp add: ParseSse.simps [of False cfg mem k s] CHARS_PER_128_BIT_REGISTER_def)
      have big: "int CHARS_PER_128_BIT_REGISTER \<le> remaining_len s"
        using True by (simp add: CHARS_PER_128_BIT_REGISTER_def)
      from r pw have pwF: "parse_window False cfg mem k s = Inr (False, s1)" by simp
      from parse_window_continue_len [OF pwF] win "1.prems"(3)
      have span1: "byte_buffer_ptr s1 + remaining_len s1 - next_column_start s1 \<le> 2 ^ 31"
        by simp
      from "1.hyps" [OF big pw refl r rest _ span1] win have "fields_nonneg s1 s'" by simp
      with win fields_nonneg_trans show ?thesis by blast
    qed
  qed
qed

text \<open>
  C5, amended.  Without escape processing a field length is stored as it is passed, never
  negated.  So every length written by a sequence of \<open>AddColumn\<close> calls is non-negative
  when the lengths passed are; and every length written by \<open>ParseSse\<close> is non-negative
  when the call is entered with the next column starting at or before the cursor and
  at most \<open>2^31\<close> bytes from the column start to the end of the buffer.  Slot \<open>i\<close> is
  any slot written, between the old and the new field counter.
\<close>

theorem no_escape_lengths_nonneg:
  assumes "num_fields s \<le> i"
  shows "(AddColumns False cfg ns s = Inr s' \<and> (\<forall>n\<in>set ns. 0 \<le> n) \<and> i < num_fields s'
            \<longrightarrow> 0 \<le> len (field_locations s' ! nat i))
       \<and> (ParseSse False cfg mem k s = Inr s' \<and> next_column_start s \<le> byte_buffer_ptr s
              \<and> byte_buffer_ptr s + remaining_len s - next_column_start s \<le> 2 ^ 31
              \<and> i < num_fields s'
            \<longrightarrow> 0 \<le> len (field_locations s' ! nat i))"
proof (intro conjI impI)
  assume "AddColumns False cfg ns s = Inr s' \<and> (\<forall>n\<in>set ns. 0 \<le> n) \<and> i < num_fields s'"
  with assms show "0 \<le> len (field_locations s' ! nat i)"
    using AddColumns_no_escape_lengths [of cfg ns s s' i] by simp
next
  assume a: "ParseSse False cfg mem k s = Inr s' \<and> next_column_start s \<le> byte_buffer_ptr s
    \<and> byte_buffer_ptr s + remaining_len s - next_column_start s \<le> 2 ^ 31
    \<and> i < num_fields s'"
  then have "fields_nonneg s s'" using ParseSse_no_escape by blast
  with a assms show "0 \<le> len (field_locations s' ! nat i)"
    by (simp add: fields_nonneg_def)
qed

theorem no_escape_lengths_nonneg_witness:
  "AddColumns False (csv_config 0) [1, 0, 3] (initial_state 0 16) =
     Inr ((initial_state 0 16)\<lparr>column_idx := 3, next_column_start := 7, num_fields := 3,
        field_locations := [\<lparr>start = 0, len = 1\<rparr>, \<lparr>start = 2, len = 0\<rparr>, \<lparr>start = 3, len = 3\<rparr>]
           @ replicate 5 \<lparr>start = 0, len = 0\<rparr>\<rparr>)
   \<and> 0 \<le> len ((field_locations ((initial_state 0 16)\<lparr>column_idx := 3, next_column_start := 7,
        num_fields := 3,
        field_locations := [\<lparr>start = 0, len = 1\<rparr>, \<lparr>start = 2, len = 0\<rparr>, \<lparr>start = 3, len = 3\<rparr>]
           @ replicate 5 \<lparr>start = 0, len = 0\<rparr>\<rparr>)) ! nat 2)
   \<and> ParseSse False (csv_config 0) (mem_of split_stream) 4 (initial_state 0 32)
     = Inr ((initial_state 0 32)\<lparr>remaining_len := 0, byte_buffer_ptr := 32,
         row_end_locations := [20, 0, 0, 0],
         field_locations := [\<lparr>start = 0, len = 3\<rparr>, \<lparr>start = 4, len = 16\<rparr>]
            @ replicate 6 \<lparr>start = 0, len = 0\<rparr>,
         num_tuples := 1, num_fields := 2, next_column_start := 21\<rparr>)
   \<and> 0 \<le> len ((field_locations ((initial_state 0 32)\<lparr>remaining_len := 0, byte_buffer_ptr := 32,
         row_end_locations := [20, 0, 0, 0],
         field_locations := [\<lparr>start = 0, len = 3\<rparr>, \<lparr>start = 4, len = 16\<rparr>]
            @ replicate 6 \<lparr>start = 0, len = 0\<rparr>,
         num_tuples := 1, num_fields := 2, next_column_start := 21\<rparr>)) ! nat 1)"
proof -
  have run: "AddColumns False (csv_config 0) [1, 0, 3] (initial_state 0 16) =
     Inr ((initial_state 0 16)\<lparr>column_idx := 3, next_column_start := 7, num_fields := 3,
        field_locations := [\<lparr>start = 0, len = 1\<rparr>, \<lparr>start = 2, len = 0\<rparr>, \<lparr>start = 3, len = 3\<rparr>]
           @ replicate 5 \<lparr>start = 0, len = 0\<rparr>\<rparr>)"
    by (simp add: AddColumn_def csv_config_def initial_state_def numeral_eq_Suc)
  have scan: "ParseSse False (csv_config 0) (mem_of split_stream) 4 (initial_state 0 32)
     = Inr ((initial_state 0 32)\<lparr>remaining_len := 0, byte_buffer_ptr := 32,
         row_end_locations := [20, 0, 0, 0],
         field_locations := [\<lparr>start = 0, len = 3\<rparr>, \<lparr>start = 4, len = 16\<rparr>]
            @ replicate 6 \<lparr>start = 0, len = 0\<rparr>,
         num_tuples := 1, num_fields := 2, next_column_start := 21\<rparr>)"
    by code_simp
  have 1: "num_fields (initial_state 0 16) \<le> 2" and 2: "num_fields (initial_state 0 32) \<le> 1"
    by (simp_all add: initial_state_def)
  from no_escape_lengths_nonneg [OF 1, of "csv_config 0" "[1, 0, 3]" _ "mem_of split_stream" 4]
    no_escape_lengths_nonneg [OF 2, of "csv_config 0" "[]" _ "mem_of split_stream" 4]
    run scan
  show ?thesis by (simp add: initial_state_def)
qed

text \<open>
  The specification has no such conditions.  Without escape processing, on the 16-byte
  buffer \<open>a\n\<close> followed by 14 \<open>x\<close>: entered with the next column starting at address 8,
  beyond the cursor, the scan stores the length \<open>1 - 8 = - 7\<close>; entered with the column
  starting \<open>2^31 + 7\<close> bytes before the buffer, the length \<open>2^31 + 8\<close> does not fit
  \<^verbatim>\<open>int len\<close> and is stored as \<open>- 2147483640\<close>.
\<close>

theorem no_escape_negative_length:
  "\<not> isl (ParseSse False (csv_config 0) (mem_of ([97, 10] @ replicate 14 120)) 4
            ((initial_state 0 16)\<lparr>next_column_start := 8\<rparr>))
   \<and> num_fields (projr (ParseSse False (csv_config 0) (mem_of ([97, 10] @ replicate 14 120)) 4
            ((initial_state 0 16)\<lparr>next_column_start := 8\<rparr>))) = 1
   \<and> field_locations (projr (ParseSse False (csv_config 0)
            (mem_of ([97, 10] @ replicate 14 120)) 4
            ((initial_state 0 16)\<lparr>next_column_start := 8\<rparr>))) ! 0
       = \<lparr>start = 8, len = - 7\<rparr>
   \<and> \<not> isl (ParseSse False (csv_config 0) (mem_of ([97, 10] @ replicate 14 120)) 4
            ((initial_state 0 16)\<lparr>next_column_start := - 2147483655\<rparr>))
   \<and> num_fields (projr (ParseSse False (csv_config 0) (mem_of ([97, 10] @ replicate 14 120)) 4
            ((initial_state 0 16)\<lparr>next_column_start := - 2147483655\<rparr>))) = 1
   \<and> field_locations (projr (ParseSse False (csv_config 0)
            (mem_of ([97, 10] @ replicate 14 120)) 4
            ((initial_state 0 16)\<lparr>next_column_start := - 2147483655\<rparr>))) ! 0
       = \<lparr>start = - 2147483655, len = - 2147483640\<rparr>"
  by code_simp

subsection \<open>Escape flags of a column\<close>



text \<open>
  A position that the walk processes holds a delimiter; unless the escape character is
  itself a delimiter, it is no escape match.
\<close>

lemma bit_strchr_mask:
  "bit (strchr_mask P mem p) i \<longleftrightarrow> i < 16 \<and> P (mem (p + int i))"
  by (auto simp: strchr_mask_def bit_horner_sum_bit_word_iff CHARS_PER_128_BIT_REGISTER_def)

lemma processed_position_no_escape:
  assumes "\<not> is_delim cfg (escape_char cfg)"
    and "bit (snd (ProcessEscapeMask e c (strchr_mask (is_delim cfg) mem p))) n"
  shows "\<not> bit (strchr_mask (\<lambda>b. b = escape_char cfg) mem p) n"
proof -
  from assms(2) have "bit (strchr_mask (is_delim cfg) mem p) n"
    by (simp add: ProcessEscapeMask_eq bit_and_iff)
  then have "is_delim cfg (mem (p + int n))" by (simp add: bit_strchr_mask)
  with assms(1) show ?thesis by (auto simp: bit_strchr_mask)
qed








subsection \<open>Escape parity across windows\<close>

lemma parse_window_threads_carry:
  assumes "parse_window True cfg mem k s = Inr (False, s')"
  shows "last_char_is_escape s' =
     fst (ProcessEscapeMask (strchr_mask (\<lambda>b. b = escape_char cfg) mem (byte_buffer_ptr s))
            (last_char_is_escape s) (strchr_mask (is_delim cfg) mem (byte_buffer_ptr s)))"
  using assms unfolding parse_window_unfold
  by (auto simp: mark_unprocessed_escape_def split: sum.splits if_splits
      dest!: walk_delim_mask_continue_frame)

lemma correct_windows_length: "length (snd (correct_windows c ws)) = length ws"
  by (induction ws arbitrary: c) (simp_all add: Let_def)

lemma correct_windows_append:
  "fst (correct_windows c (xs @ ys)) = fst (correct_windows (fst (correct_windows c xs)) ys)"
  by (induction xs arbitrary: c) (simp_all add: Let_def)

lemma carry_in_0: "carry_in c ws 0 = c"
  by (simp add: carry_in_def)

lemma ProcessEscapeMask_carry:
  "fst (ProcessEscapeMask e c d) = escape_active e c 15"
  by (simp add: ProcessEscapeMask_eq bit_corrected_escape_mask)

lemma carry_in_Suc:
  "w < length ws \<Longrightarrow>
     carry_in c ws (Suc w) = escape_active (fst (ws ! w)) (carry_in c ws w) 15"
  by (simp add: carry_in_def take_Suc_conv_app_nth correct_windows_append Let_def
      ProcessEscapeMask_carry)

lemma correct_windows_nth:
  "w < length ws \<Longrightarrow>
     snd (correct_windows c ws) ! w
       = snd (ProcessEscapeMask (fst (ws ! w)) (carry_in c ws w) (snd (ws ! w)))"
proof (induction ws arbitrary: c w)
  case Nil
  then show ?case by simp
next
  case (Cons x ws)
  show ?case
  proof (cases w)
    case 0
    then show ?thesis by (simp add: Let_def carry_in_def)
  next
    case (Suc v)
    with Cons.prems have "v < length ws" by simp
    from Cons.IH [OF this, of "fst (ProcessEscapeMask (fst x) c (snd x))"] Suc
    show ?thesis by (simp add: Let_def carry_in_def)
  qed
qed

lemma bit_ProcessEscapeMask:
  "bit (snd (ProcessEscapeMask e c d)) n \<longleftrightarrow> bit d n \<and> \<not> escaped_by_prev e c n"
proof -
  have "bit (snd (ProcessEscapeMask e c d)) n
      \<longleftrightarrow> bit d n \<and> \<not> (n < 16 \<and> (if n = 0 then c else bit (corrected_escape_mask e c) (n - 1)))"
    by (simp only: ProcessEscapeMask_eq snd_conv bit_and_iff bit_not_iff bit_shifted)
       (use bit_imp_le_length [of d n] in auto)
  also have "\<dots> \<longleftrightarrow> bit d n \<and> \<not> escaped_by_prev e c n"
    using bit_imp_le_length [of d n]
    by (cases n) (auto simp: escaped_by_prev_def bit_corrected_escape_mask)
  finally show ?thesis .
qed

lemma corrected_delim_at_iff:
  "p < 16 * length ws \<Longrightarrow>
     corrected_delim_at c ws p \<longleftrightarrow> delim_at ws p \<and> \<not> esc_prev c ws p"
  by (simp add: corrected_delim_at_def delim_at_def esc_prev_def correct_windows_nth
      bit_ProcessEscapeMask less_mult_imp_div_less mult.commute)

lemma esc_prev_0: "esc_prev c ws 0 = c"
  by (simp add: esc_prev_def escaped_by_prev_def carry_in_0)

lemma esc_prev_Suc:
  assumes "Suc p < 16 * length ws"
  shows "esc_prev c ws (Suc p) = (escape_at ws p \<and> \<not> esc_prev c ws p)"
proof (cases "p mod 16 = 15")
  case True
  then have m: "Suc p mod 16 = 0" and d: "Suc p div 16 = Suc (p div 16)"
    by (simp_all add: mod_Suc div_Suc)
  from assms d have "p div 16 < length ws"
    by (metis Suc_lessD less_mult_imp_div_less mult.commute)
  then show ?thesis
    using True
    by (simp add: esc_prev_def m d escaped_by_prev_def carry_in_Suc escape_at_def
        escape_active_rec [of _ _ 15])
next
  case False
  then have m: "Suc p mod 16 = Suc (p mod 16)" and d: "Suc p div 16 = p div 16"
    by (simp_all add: mod_Suc div_Suc)
  show ?thesis
    by (simp add: esc_prev_def m d escape_at_def escaped_by_prev_def
        escape_active_rec [of _ _ "p mod 16"])
qed

lemma esc_prev_run:
  assumes "\<not> esc_prev c ws a" and "a + j < 16 * length ws"
    and "\<forall>q. a \<le> q \<and> q < a + j \<longrightarrow> escape_at ws q"
  shows "esc_prev c ws (a + j) \<longleftrightarrow> odd j"
  using assms(2,3)
proof (induction j)
  case 0
  with assms(1) show ?case by simp
next
  case (Suc j)
  then have "esc_prev c ws (a + j) \<longleftrightarrow> odd j" by simp
  moreover have "escape_at ws (a + j)" using Suc.prems by simp
  ultimately show ?case using esc_prev_Suc [of "a + j" ws c] Suc.prems(1) by simp
qed

text \<open>
  C3.  Let the delimiter at stream position \<open>p\<close> be immediately preceded by a run of
  exactly \<open>k\<close> escape characters (the byte before the run is no escape character, or
  the run starts the stream and no escape is pending).  Then the correction clears the
  delimiter's mask bit iff \<open>k\<close> is odd, wherever the window boundaries fall in the run:
  the parity crosses each boundary in the carry.
\<close>

theorem escape_parity:
  assumes "p < 16 * length ws" and "delim_at ws p" and "k \<le> p"
    and "\<forall>q. p - k \<le> q \<and> q < p \<longrightarrow> escape_at ws q"
    and "k < p \<longrightarrow> \<not> escape_at ws (p - k - 1)"
    and "k = p \<longrightarrow> \<not> c"
  shows "\<not> corrected_delim_at c ws p \<longleftrightarrow> odd k"
proof -
  have start: "\<not> esc_prev c ws (p - k)"
  proof (cases "k = p")
    case True
    with assms(6) show ?thesis by (simp add: esc_prev_0)
  next
    case False
    with assms(3) have "k < p" by simp
    then obtain a where a: "p - k = Suc a" by (cases "p - k") simp_all
    with assms(1) have "Suc a < 16 * length ws" by simp
    from esc_prev_Suc [OF this, of c] assms(5) \<open>k < p\<close> a show ?thesis by simp
  qed
  from assms(1,3,4) have "esc_prev c ws (p - k + k) \<longleftrightarrow> odd k"
    by (intro esc_prev_run [OF start]) simp_all
  with assms(1,2,3) show ?thesis by (simp add: corrected_delim_at_iff)
qed


theorem escape_parity_witness:
  "delim_at [(0xC000, 0), (1, 2)] 17
   \<and> escape_at [(0xC000, 0), (1, 2)] 14 \<and> escape_at [(0xC000, 0), (1, 2)] 15
   \<and> escape_at [(0xC000, 0), (1, 2)] 16 \<and> \<not> escape_at [(0xC000, 0), (1, 2)] 13
   \<and> \<not> corrected_delim_at False [(0xC000, 0), (1, 2)] 17"
proof -
  let ?ws = "[(0xC000, 0), (1, 2)] :: (mask16 \<times> mask16) list"
  have e: "escape_at ?ws 14" "escape_at ?ws 15" "escape_at ?ws 16" "\<not> escape_at ?ws 13"
    and d: "delim_at ?ws 17"
    by (simp_all add: escape_at_def delim_at_def)
  have run: "\<forall>q. 17 - 3 \<le> q \<and> q < 17 \<longrightarrow> escape_at ?ws q"
  proof (intro allI impI)
    fix q :: nat
    assume "17 - 3 \<le> q \<and> q < 17"
    then have "q = 14 \<or> q = 15 \<or> q = 16" by arith
    with e show "escape_at ?ws q" by auto
  qed
  have "\<not> corrected_delim_at False ?ws 17 \<longleftrightarrow> odd (3 :: nat)"
    using e d by (intro escape_parity run) simp_all
  with e d show ?thesis by simp
qed

subsection \<open>Scanning a stream in several calls\<close>
















end
